theory Spec2Isabelle
  imports Main
begin

section \<open>apathy: path manipulation (path.hpp)\<close>

text \<open>
  \<^verbatim>\<open>path.hpp\<close> has two builds. The definitions below follow the non-Windows branch of every
  \<^verbatim>\<open>#if defined(_WIN32)\<close>, the POSIX build; the subsection on the Windows build gives the
  functions behind \<^verbatim>\<open>sanitize\<close> for the other branch, under names ending in \<open>_win32\<close>.
  A \<^verbatim>\<open>Path\<close> holds one private \<^verbatim>\<open>std::string path\<close> and a \<^verbatim>\<open>Segment\<close> one
  \<^verbatim>\<open>std::string segment\<close>; both are modelled by that string. A member function that
  mutates \<^verbatim>\<open>path\<close> and returns \<^verbatim>\<open>*this\<close> becomes a function from the old string to
  the new one.
\<close>

subsection \<open>Data model\<close>

type_synonym path = string
type_synonym segment = string

definition separator :: char where
  "separator = CHR ''/''"

subsection \<open>Type tests\<close>

text \<open>\<^verbatim>\<open>path.size() && path[0] == separator\<close>\<close>

definition is_absolute :: "path \<Rightarrow> bool" where
  "is_absolute p = (p \<noteq> [] \<and> hd p = separator)"

text \<open>\<^verbatim>\<open>path.size() && path[path.length() - 1] == separator\<close>\<close>

definition trailing_slash :: "path \<Rightarrow> bool" where
  "trailing_slash p = (p \<noteq> [] \<and> last p = separator)"

subsection \<open>Splitting\<close>

text \<open>
  \<^verbatim>\<open>Segment::operator>>\<close> is \<^verbatim>\<open>std::getline(stream, s.segment, separator)\<close>. The stream is
  modelled by the characters not yet read. \<^verbatim>\<open>getline\<close> extracts characters up to the
  delimiter, which it consumes and does not store, or up to the end of the input. It fails
  (\<open>None\<close>) exactly when it extracts nothing, not even a delimiter, which happens only at
  the end of the input; a delimiter met at once yields the empty segment.
\<close>

definition getline :: "string \<Rightarrow> (segment \<times> string) option" where
  "getline s =
     (if s = [] then None
      else Some (takeWhile (\<lambda>c. c \<noteq> separator) s,
                 drop 1 (dropWhile (\<lambda>c. c \<noteq> separator) s)))"

text \<open>
  \<^verbatim>\<open>std::vector<Segment> results(start, end)\<close> with \<^verbatim>\<open>istream_iterator\<close>s: segments are
  read until the first failing extraction.
\<close>

function read_segments :: "string \<Rightarrow> segment list" where
  "read_segments s =
     (case getline s of
        None \<Rightarrow> []
      | Some (seg, rest) \<Rightarrow> seg # read_segments rest)"
  by pat_completeness auto
termination
proof (relation "measure length")
  show "wf (measure length)" by simp
next
  fix s :: string and x2 :: "segment \<times> string" and seg rest :: string
  assume "getline s = Some x2" and "(seg, rest) = x2"
  then have ne: "s \<noteq> []" and r: "rest = drop 1 (dropWhile (\<lambda>c. c \<noteq> separator) s)"
    by (auto simp: getline_def split: if_splits)
  have "length (dropWhile (\<lambda>c. c \<noteq> separator) s) \<le> length s"
    by (rule length_dropWhile_le)
  with ne r have "length rest < length s"
    by (cases "dropWhile (\<lambda>c. c \<noteq> separator) s") auto
  then show "(rest, s) \<in> measure length" by simp
qed

declare read_segments.simps [simp del]

definition split :: "path \<Rightarrow> segment list" where
  "split p =
     (let results = read_segments p
      in if trailing_slash p then results @ [[]] else results)"

subsection \<open>Joining\<close>

text \<open>\<^verbatim>\<open>Path::join(const std::vector<Segment>&)\<close>: a separator after every segment but the last.\<close>

fun join_segments :: "segment list \<Rightarrow> path" where
  "join_segments [] = []"
| "join_segments [s] = s"
| "join_segments (s # t # ss) = s @ separator # join_segments (t # ss)"

subsection \<open>Manipulators\<close>

text \<open>\<^verbatim>\<open>std::string::find_last_not_of(char)\<close>: the greatest index holding another character,
  \<open>None\<close> for \<^verbatim>\<open>npos\<close>.\<close>

fun find_last_not_of :: "char \<Rightarrow> string \<Rightarrow> nat option" where
  "find_last_not_of c [] = None"
| "find_last_not_of c (x # xs) =
     (case find_last_not_of c xs of
        Some i \<Rightarrow> Some (Suc i)
      | None \<Rightarrow> if x \<noteq> c then Some 0 else None)"

definition trim :: "path \<Rightarrow> path" where
  "trim p =
     (if length p = 0 then p
      else case find_last_not_of separator p of
             Some i \<Rightarrow> take (i + 1) p
           | None \<Rightarrow> [])"

definition directory :: "path \<Rightarrow> path" where
  "directory p = trim p @ [separator]"

definition append :: "path \<Rightarrow> path \<Rightarrow> path" where
  "append p seg = (if \<not> trailing_slash p then p @ [separator] else p) @ seg"

text \<open>\<^verbatim>\<open>operator<<\<close> returns \<^verbatim>\<open>append(segment)\<close>; \<^verbatim>\<open>operator+\<close> and the two-path
  \<^verbatim>\<open>join\<close> append to a copy.\<close>

definition shift_left :: "path \<Rightarrow> path \<Rightarrow> path" where
  "shift_left p seg = append p seg"

definition plus_path :: "path \<Rightarrow> path \<Rightarrow> path" where
  "plus_path p seg = append p seg"

definition join :: "path \<Rightarrow> path \<Rightarrow> path" where
  "join a b = append a b"

subsection \<open>Sanitizing\<close>

text \<open>One iteration of the loop of \<^verbatim>\<open>sanitize\<close> over \<^verbatim>\<open>segments[pos]\<close>, on the vector
  \<^verbatim>\<open>pruned\<close>.\<close>

definition prune_step :: "bool \<Rightarrow> segment list \<Rightarrow> segment \<Rightarrow> segment list" where
  "prune_step relative pruned s =
     (if length s = 0 \<or> s = ''.'' then pruned
      else if s = ''..'' then
        (if relative then
           (if pruned \<noteq> [] \<and> last pruned \<noteq> ''..'' then butlast pruned
            else pruned @ [s])
         else if pruned \<noteq> [] then butlast pruned
         else pruned)
      else pruned @ [s])"

fun prune :: "bool \<Rightarrow> segment list \<Rightarrow> segment list \<Rightarrow> segment list" where
  "prune relative pruned [] = pruned"
| "prune relative pruned (s # segments) =
     prune relative (prune_step relative pruned s) segments"

definition sanitize :: "path \<Rightarrow> path" where
  "sanitize p =
     (let segments = split p;
          relative = \<not> is_absolute p;
          pruned = prune relative [] segments;
          was_directory = trailing_slash p
      in if \<not> relative then
           (let path = separator # join_segments pruned
            in if was_directory then directory path else path)
         else
           (let path = join_segments pruned
            in if length path \<noteq> 0 \<and> was_directory then directory path else path))"

text \<open>\<^verbatim>\<open>up\<close>, and \<^verbatim>\<open>parent\<close>, which runs \<^verbatim>\<open>up\<close> on a copy.\<close>

definition up :: "path \<Rightarrow> path" where
  "up p =
     (if length p = 0 then directory ''..''
      else let q = sanitize (append p ''..'')
           in if length q = 0 then q else directory q)"

definition parent :: "path \<Rightarrow> path" where
  "parent p = up p"

subsection \<open>Recursive removal\<close>

text \<open>
  \<^verbatim>\<open>stat\<close>, \<^verbatim>\<open>rmdir\<close> and \<^verbatim>\<open>unlink\<close> belong to the operating system. The file system is a
  state of type \<open>'w\<close>; a record gives what the three calls answer in a state and the state
  they leave. \<open>fs_rmdir\<close> and \<open>fs_unlink\<close> answer \<open>True\<close> where the C call returns 0.
\<close>

record 'w filesystem =
  fs_is_directory :: "'w \<Rightarrow> path \<Rightarrow> bool"
  fs_rmdir :: "path \<Rightarrow> 'w \<Rightarrow> bool \<times> 'w"
  fs_unlink :: "path \<Rightarrow> 'w \<Rightarrow> bool \<times> 'w"

text \<open>\<^verbatim>\<open>absolute\<close>, with the value of \<^verbatim>\<open>cwd()\<close> as a parameter; \<^verbatim>\<open>cwd()\<close> is the answer of
  \<^verbatim>\<open>getcwd\<close> made a directory.\<close>

definition cwd :: "string \<Rightarrow> path" where
  "cwd getcwd_answer = directory getcwd_answer"

definition absolute :: "path \<Rightarrow> path \<Rightarrow> path" where
  "absolute cwd_path p = (if \<not> is_absolute p then join cwd_path p else p)"

text \<open>
  The loop of \<^verbatim>\<open>rmdirs\<close> over the sorted \<^verbatim>\<open>contents\<close>. Besides the flag \<^verbatim>\<open>success\<close> it
  returns the removal calls it made, each with its result, and the final file system.
\<close>

fun rmdirs_loop ::
  "'w filesystem \<Rightarrow> bool \<Rightarrow> path list \<Rightarrow> bool \<Rightarrow> (path \<times> bool) list \<Rightarrow> 'w
     \<Rightarrow> bool \<times> (path \<times> bool) list \<times> 'w" where
  "rmdirs_loop os ignore_errors [] success calls w = (success, calls, w)"
| "rmdirs_loop os ignore_errors (p # contents) success calls w =
     (let (ok, w') = (if fs_is_directory os w p then fs_rmdir os p w else fs_unlink os p w)
      in if \<not> ok \<and> \<not> ignore_errors then (ok, calls @ [(p, ok)], w')
         else rmdirs_loop os ignore_errors contents ok (calls @ [(p, ok)]) w')"

text \<open>
  \<^verbatim>\<open>rmdirs\<close>. \<open>listing\<close> is what \<^verbatim>\<open>recursive_listdir(p)\<close> returned. \<^verbatim>\<open>std::sort\<close> orders by
  descending length of the absolute path and leaves the order of ties open; the model
  keeps ties in their order.
\<close>

definition rmdirs ::
  "'w filesystem \<Rightarrow> path \<Rightarrow> path list \<Rightarrow> path \<Rightarrow> bool \<Rightarrow> 'w
     \<Rightarrow> bool \<times> (path \<times> bool) list \<times> 'w" where
  "rmdirs os cwd_path listing p ignore_errors w =
     (let contents = listing @ [p];
          sorted_contents = sort_key (\<lambda>q. - int (length (absolute cwd_path q))) contents
      in rmdirs_loop os ignore_errors sorted_contents True [] w)"

text \<open>A file system that answers from a script: the head of the state says whether the
  path of the next removal is a directory and whether its removal succeeds.\<close>

definition scripted :: "(bool \<times> bool) list filesystem" where
  "scripted =
     \<lparr> fs_is_directory = (\<lambda>w p. case w of [] \<Rightarrow> False | (d, ok) # w' \<Rightarrow> d),
       fs_rmdir = (\<lambda>p w. case w of [] \<Rightarrow> (False, []) | (d, ok) # w' \<Rightarrow> (ok, w')),
       fs_unlink = (\<lambda>p w. case w of [] \<Rightarrow> (False, []) | (d, ok) # w' \<Rightarrow> (ok, w')) \<rparr>"

subsection \<open>The Windows build\<close>

text \<open>
  Under \<^verbatim>\<open>_WIN32\<close> the separator is the backslash, a colon in second place marks a drive,
  and both constructors of \<^verbatim>\<open>Path\<close> replace every \<^verbatim>\<open>/\<close> by the separator. The functions
  that \<^verbatim>\<open>sanitize\<close> runs are given again for this build, with the \<^verbatim>\<open>_WIN32\<close> branch of
  every \<^verbatim>\<open>#if\<close>.
\<close>

definition windows_separator :: char where
  "windows_separator = CHR 0x5C"

definition windows_drive_separator :: char where
  "windows_drive_separator = CHR '':''"

definition posix_separator :: char where
  "posix_separator = CHR ''/''"

text \<open>\<^verbatim>\<open>Path::Path(const std::string&)\<close>:
  \<^verbatim>\<open>std::replace(path.begin(), path.end(), posix_separator, windows_separator)\<close>.\<close>

definition Path_win32 :: "string \<Rightarrow> path" where
  "Path_win32 p = map (\<lambda>c. if c = posix_separator then windows_separator else c) p"

text \<open>\<^verbatim>\<open>segment.size() >= 2 && segment[1] == windows_drive_separator\<close>\<close>

definition is_drive_letter :: "segment \<Rightarrow> bool" where
  "is_drive_letter s = (length s \<ge> 2 \<and> s ! 1 = windows_drive_separator)"

text \<open>\<^verbatim>\<open>path.size() >= 2 && path[1] == windows_drive_separator\<close>\<close>

definition is_absolute_win32 :: "path \<Rightarrow> bool" where
  "is_absolute_win32 p = (length p \<ge> 2 \<and> p ! 1 = windows_drive_separator)"

definition trailing_slash_win32 :: "path \<Rightarrow> bool" where
  "trailing_slash_win32 p =
     (p \<noteq> [] \<and> (last p = windows_separator \<or> last p = posix_separator))"

definition getline_win32 :: "string \<Rightarrow> (segment \<times> string) option" where
  "getline_win32 s =
     (if s = [] then None
      else Some (takeWhile (\<lambda>c. c \<noteq> windows_separator) s,
                 drop 1 (dropWhile (\<lambda>c. c \<noteq> windows_separator) s)))"

function read_segments_win32 :: "string \<Rightarrow> segment list" where
  "read_segments_win32 s =
     (case getline_win32 s of
        None \<Rightarrow> []
      | Some (seg, rest) \<Rightarrow> seg # read_segments_win32 rest)"
  by pat_completeness auto
termination
proof (relation "measure length")
  show "wf (measure length)" by simp
next
  fix s :: string and x2 :: "segment \<times> string" and seg rest :: string
  assume "getline_win32 s = Some x2" and "(seg, rest) = x2"
  then have ne: "s \<noteq> []"
    and r: "rest = drop 1 (dropWhile (\<lambda>c. c \<noteq> windows_separator) s)"
    by (auto simp: getline_win32_def split: if_splits)
  have "length (dropWhile (\<lambda>c. c \<noteq> windows_separator) s) \<le> length s"
    by (rule length_dropWhile_le)
  with ne r have "length rest < length s"
    by (cases "dropWhile (\<lambda>c. c \<noteq> windows_separator) s") auto
  then show "(rest, s) \<in> measure length" by simp
qed

declare read_segments_win32.simps [simp del]

definition split_win32 :: "path \<Rightarrow> segment list" where
  "split_win32 p =
     (let results = read_segments_win32 p
      in if trailing_slash_win32 p then results @ [[]] else results)"

text \<open>\<^verbatim>\<open>Path::join(const std::vector<Segment>&)\<close>: the loop, then \<^verbatim>\<open>return Path(path)\<close>, which
  runs the constructor.\<close>

fun join_loop_win32 :: "segment list \<Rightarrow> string" where
  "join_loop_win32 [] = []"
| "join_loop_win32 [s] = s"
| "join_loop_win32 (s # t # ss) = s @ windows_separator # join_loop_win32 (t # ss)"

definition join_segments_win32 :: "segment list \<Rightarrow> path" where
  "join_segments_win32 segments = Path_win32 (join_loop_win32 segments)"

definition trim_win32 :: "path \<Rightarrow> path" where
  "trim_win32 p =
     (if length p = 0 then p
      else case find_last_not_of windows_separator p of
             Some i \<Rightarrow> take (i + 1) p
           | None \<Rightarrow> [])"

definition directory_win32 :: "path \<Rightarrow> path" where
  "directory_win32 p = trim_win32 p @ [windows_separator]"

text \<open>One iteration of the loop of \<^verbatim>\<open>sanitize\<close> at index \<open>pos\<close>: a drive segment anywhere but
  first is skipped, and \<^verbatim>\<open>..\<close> on an absolute path does not pop a drive segment.\<close>

definition prune_step_win32 ::
  "bool \<Rightarrow> nat \<Rightarrow> segment list \<Rightarrow> segment \<Rightarrow> segment list" where
  "prune_step_win32 relative pos pruned s =
     (if length s = 0 \<or> s = ''.'' then pruned
      else if pos \<noteq> 0 \<and> is_drive_letter s then pruned
      else if s = ''..'' then
        (if relative then
           (if pruned \<noteq> [] \<and> last pruned \<noteq> ''..'' then butlast pruned
            else pruned @ [s])
         else if pruned \<noteq> [] then
           (if \<not> is_drive_letter (last pruned) then butlast pruned else pruned)
         else pruned)
      else pruned @ [s])"

fun prune_win32 :: "bool \<Rightarrow> nat \<Rightarrow> segment list \<Rightarrow> segment list \<Rightarrow> segment list" where
  "prune_win32 relative pos pruned [] = pruned"
| "prune_win32 relative pos pruned (s # segments) =
     prune_win32 relative (pos + 1) (prune_step_win32 relative pos pruned s) segments"

text \<open>\<^verbatim>\<open>sanitize\<close>: on this build the absolute branch prepends nothing to the joined
  segments.\<close>

definition sanitize_win32 :: "path \<Rightarrow> path" where
  "sanitize_win32 p =
     (let segments = split_win32 p;
          relative = \<not> is_absolute_win32 p;
          pruned = prune_win32 relative 0 [] segments;
          was_directory = trailing_slash_win32 p
      in if \<not> relative then
           (let path = join_segments_win32 pruned
            in if was_directory then directory_win32 path else path)
         else
           (let path = join_segments_win32 pruned
            in if length path \<noteq> 0 \<and> was_directory then directory_win32 path else path))"

subsection \<open>Segment classes used in the proofs\<close>

text \<open>A segment that the loop of \<^verbatim>\<open>sanitize\<close> pushes unchanged, and the shape of
  \<^verbatim>\<open>pruned\<close> on a relative path: some \<^verbatim>\<open>..\<close>, then such segments only.\<close>

definition normal_segment :: "segment \<Rightarrow> bool" where
  "normal_segment s = (s \<noteq> [] \<and> s \<noteq> ''.'' \<and> s \<noteq> ''..'' \<and> separator \<notin> set s)"

definition rel_canon :: "segment list \<Rightarrow> bool" where
  "rel_canon xs = list_all normal_segment (dropWhile (\<lambda>s. s = ''..'') xs)"

text \<open>The string that \<^verbatim>\<open>sanitize\<close> assembles from \<^verbatim>\<open>pruned\<close>, in closed form.\<close>

definition rebuilt :: "bool \<Rightarrow> segment list \<Rightarrow> bool \<Rightarrow> path" where
  "rebuilt relative P was_directory =
     (if relative then
        (if P = [] then [] else join_segments P @ (if was_directory then [separator] else []))
      else
        (if P = [] then [separator]
         else separator # join_segments P @ (if was_directory then [separator] else [])))"

section \<open>Auxiliary facts\<close>

lemma read_segments_Nil: "read_segments [] = []"
  by (subst read_segments.simps) (simp add: getline_def)

lemma read_segments_seg_sep:
  assumes "separator \<notin> set a"
  shows "read_segments (a @ separator # s) = a # read_segments s"
proof -
  from assms have all: "\<forall>c\<in>set a. c \<noteq> separator" by auto
  then have "getline (a @ separator # s) = Some (a, s)"
    by (simp add: getline_def takeWhile_append2 dropWhile_append2)
  then show ?thesis
    by (subst read_segments.simps) simp
qed

lemma read_segments_sep: "read_segments (separator # s) = [] # read_segments s"
  using read_segments_seg_sep [of "[]" s] by simp

lemma read_segments_single:
  assumes "a \<noteq> []" and "separator \<notin> set a"
  shows "read_segments a = [a]"
proof -
  from assms have all: "\<forall>c\<in>set a. c \<noteq> separator" by auto
  then have tw: "takeWhile (\<lambda>c. c \<noteq> separator) a = a"
    and dw: "dropWhile (\<lambda>c. c \<noteq> separator) a = []"
    by simp_all
  have "getline a = Some (a, [])"
    unfolding getline_def tw dw using assms(1) by simp
  then show ?thesis
    by (subst read_segments.simps) (simp add: read_segments_Nil)
qed

lemma read_segments_seg_sep_end:
  assumes "separator \<notin> set a"
  shows "read_segments (a @ [separator]) = [a]"
  using read_segments_seg_sep [OF assms, of "[]"] by (simp add: read_segments_Nil)

lemma read_segments_sepfree:
  "x \<in> set (read_segments s) \<Longrightarrow> separator \<notin> set x"
proof (induction s rule: read_segments.induct)
  case (1 s)
  show ?case
  proof (cases "s = []")
    case True
    with "1.prems" show ?thesis by (simp add: read_segments_Nil)
  next
    case False
    let ?seg = "takeWhile (\<lambda>c. c \<noteq> separator) s"
    let ?rest = "drop 1 (dropWhile (\<lambda>c. c \<noteq> separator) s)"
    from False have g: "getline s = Some (?seg, ?rest)" by (simp add: getline_def)
    then have rs: "read_segments s = ?seg # read_segments ?rest"
      by (subst read_segments.simps) simp
    have "separator \<notin> set ?seg"
      using set_takeWhileD by fastforce
    moreover have "x \<in> set (read_segments ?rest) \<Longrightarrow> separator \<notin> set x"
      using "1.IH" [OF g refl] .
    ultimately show ?thesis using "1.prems" rs by auto
  qed
qed

lemma join_segments_Cons:
  "ns \<noteq> [] \<Longrightarrow> join_segments (s # ns) = s @ separator # join_segments ns"
  by (cases ns) simp_all

lemma join_segments_snoc:
  "ns \<noteq> [] \<Longrightarrow> join_segments (ns @ [s]) = join_segments ns @ separator # s"
  by (induction ns rule: join_segments.induct) simp_all

lemma read_segments_join:
  assumes "\<forall>s\<in>set ns. s \<noteq> [] \<and> separator \<notin> set s"
  shows "read_segments (join_segments ns) = ns"
  using assms
proof (induction ns rule: join_segments.induct)
  case 1
  show ?case by (simp add: read_segments_Nil)
next
  case (2 s)
  then show ?case by (simp add: read_segments_single)
next
  case (3 s t ss)
  then show ?case by (simp add: read_segments_seg_sep)
qed

lemma read_segments_join_sep:
  assumes "\<forall>s\<in>set ns. s \<noteq> [] \<and> separator \<notin> set s" and "ns \<noteq> []"
  shows "read_segments (join_segments ns @ [separator]) = ns"
  using assms
proof (induction ns rule: join_segments.induct)
  case 1
  then show ?case by simp
next
  case (2 s)
  then show ?case by (simp add: read_segments_seg_sep_end)
next
  case (3 s t ss)
  then show ?case by (simp add: read_segments_seg_sep)
qed

lemma join_segments_nonempty:
  assumes "ns \<noteq> []" and "\<forall>s\<in>set ns. s \<noteq> []"
  shows "join_segments ns \<noteq> [] \<and> hd (join_segments ns) = hd (hd ns)
         \<and> last (join_segments ns) = last (last ns)"
  using assms
  by (induction ns rule: join_segments.induct) auto

lemma prune_step_empty: "prune_step r acc [] = acc"
  by (simp add: prune_step_def)

lemma prune_step_dot: "prune_step r acc ''.'' = acc"
  by (simp add: prune_step_def)

lemma prune_step_normal: "normal_segment s \<Longrightarrow> prune_step r acc s = acc @ [s]"
  by (simp add: prune_step_def normal_segment_def)

lemma prune_step_dotdot_rel:
  "prune_step True acc ''..'' =
     (if acc \<noteq> [] \<and> last acc \<noteq> ''..'' then butlast acc else acc @ [''..''])"
  by (simp add: prune_step_def)

lemma prune_step_dotdot_abs: "prune_step False acc ''..'' = butlast acc"
  by (simp add: prune_step_def)

lemma segment_cases:
  "x = [] \<or> x = ''.'' \<or> x = ''..'' \<or> separator \<in> set x \<or> normal_segment x"
  unfolding normal_segment_def by blast

lemma normal_not_dotdot: "normal_segment s \<Longrightarrow> s \<noteq> ''..''"
  unfolding normal_segment_def by blast

lemma normal_sane: "normal_segment s \<Longrightarrow> s \<noteq> [] \<and> separator \<notin> set s"
  unfolding normal_segment_def by blast

lemma dotdot_sane: "''..'' \<noteq> [] \<and> separator \<notin> set ''..''"
  by (simp add: separator_def)

lemma prune_append:
  "prune r acc (xs @ ys) = prune r (prune r acc xs) ys"
  by (induction xs arbitrary: acc) simp_all

lemma prune_normal:
  "list_all normal_segment xs \<Longrightarrow> prune r acc xs = acc @ xs"
  by (induction xs arbitrary: acc) (simp_all add: prune_step_normal)

lemma prune_skip_empty: "prune r acc ([] # xs) = prune r acc xs"
  by (simp add: prune_step_empty)

lemma prune_step_abs_normal:
  assumes "list_all normal_segment acc" and "separator \<notin> set x"
  shows "list_all normal_segment (prune_step False acc x)"
proof -
  have bl: "list_all normal_segment (butlast acc)"
    using assms(1) by (auto simp: list_all_iff dest: in_set_butlastD)
  from segment_cases [of x] assms(2)
  consider "x = []" | "x = ''.''" | "x = ''..''" | "normal_segment x" by blast
  then show ?thesis
  proof cases
    case 1 then show ?thesis using assms(1) by (simp add: prune_step_empty)
  next
    case 2 then show ?thesis using assms(1) by (simp add: prune_step_dot)
  next
    case 3 then show ?thesis using bl by (simp add: prune_step_dotdot_abs)
  next
    case 4 then show ?thesis using assms(1) by (simp add: prune_step_normal)
  qed
qed

lemma prune_abs_normal:
  assumes "list_all normal_segment acc" and "\<forall>s\<in>set xs. separator \<notin> set s"
  shows "list_all normal_segment (prune False acc xs)"
  using assms
  by (induction xs arbitrary: acc) (simp_all add: prune_step_abs_normal)

lemma rel_canon_iff:
  "rel_canon xs \<longleftrightarrow> (\<exists>k ns. xs = replicate k ''..'' @ ns \<and> list_all normal_segment ns)"
proof
  assume rc: "rel_canon xs"
  define P where "P = (\<lambda>s::segment. s = ''..'')"
  have "xs = takeWhile P xs @ dropWhile P xs" by simp
  moreover have "takeWhile P xs = replicate (length (takeWhile P xs)) ''..''"
  proof (rule replicate_length_same [symmetric])
    show "\<forall>y\<in>set (takeWhile P xs). y = ''..''"
      using set_takeWhileD [of _ P xs] unfolding P_def by blast
  qed
  ultimately have "xs = replicate (length (takeWhile P xs)) ''..'' @ dropWhile P xs"
    by simp
  moreover have "list_all normal_segment (dropWhile P xs)"
    using rc unfolding rel_canon_def P_def .
  ultimately show "\<exists>k ns. xs = replicate k ''..'' @ ns \<and> list_all normal_segment ns"
    by blast
next
  assume "\<exists>k ns. xs = replicate k ''..'' @ ns \<and> list_all normal_segment ns"
  then obtain k ns where xs: "xs = replicate k ''..'' @ ns" and ns: "list_all normal_segment ns"
    by blast
  define P where "P = (\<lambda>s::segment. s = ''..'')"
  have "dropWhile P ns = ns"
  proof (cases ns)
    case Nil
    then show ?thesis by simp
  next
    case (Cons n ns')
    with ns have "normal_segment n" by simp
    then have "\<not> P n" unfolding P_def by (rule normal_not_dotdot)
    with Cons show ?thesis by simp
  qed
  moreover have "dropWhile P (replicate k ''..'' @ ns) = dropWhile P ns"
    by (rule dropWhile_append2) (simp add: P_def)
  ultimately have "dropWhile P xs = ns"
    unfolding xs by simp
  with ns show "rel_canon xs" unfolding rel_canon_def P_def by simp
qed

lemma replicate_dotdot_snoc:
  "replicate k ''..'' @ [''..''] = replicate (Suc k) ''..''"
  by (simp add: replicate_append_same)

lemma rel_canon_step:
  assumes "rel_canon acc" and "separator \<notin> set x"
  shows "rel_canon (prune_step True acc x)"
proof -
  from assms(1) obtain k ns where acc: "acc = replicate k ''..'' @ ns"
    and ns: "list_all normal_segment ns"
    unfolding rel_canon_iff by blast
  from segment_cases [of x] assms(2)
  consider (e) "x = []" | (d) "x = ''.''" | (dd) "x = ''..''" | (norm) "normal_segment x"
    by blast
  then show ?thesis
  proof cases
    case e
    then show ?thesis using assms(1) by (simp add: prune_step_empty)
  next
    case d
    then show ?thesis using assms(1) by (simp add: prune_step_dot)
  next
    case norm
    then have "prune_step True acc x = replicate k ''..'' @ (ns @ [x])"
      by (simp add: prune_step_normal acc)
    moreover have "list_all normal_segment (ns @ [x])" using ns norm by simp
    ultimately show ?thesis unfolding rel_canon_iff by blast
  next
    case dd
    show ?thesis
    proof (cases "ns = []")
      case True
      then have accr: "acc = replicate k ''..''" by (simp add: acc)
      have "acc = [] \<or> last acc = ''..''"
        unfolding accr by (cases k) simp_all
      then have "prune_step True acc ''..'' = acc @ [''..'']"
        unfolding prune_step_dotdot_rel by auto
      then have "prune_step True acc x = replicate (Suc k) ''..'' @ []"
        unfolding dd accr by (simp only: replicate_dotdot_snoc append_Nil2)
      moreover have "list_all normal_segment ([] :: segment list)" by simp
      ultimately show ?thesis unfolding rel_canon_iff by blast
    next
      case False
      then have l: "last acc = last ns" and ne: "acc \<noteq> []" by (simp_all add: acc)
      from False ns have "normal_segment (last ns)" by (simp add: list_all_iff)
      then have "last ns \<noteq> ''..''" by (rule normal_not_dotdot)
      with l ne have "prune_step True acc ''..'' = butlast acc"
        unfolding prune_step_dotdot_rel by simp
      also have "\<dots> = replicate k ''..'' @ butlast ns"
        using False by (simp add: acc butlast_append)
      finally have "prune_step True acc x = replicate k ''..'' @ butlast ns"
        unfolding dd .
      moreover have "list_all normal_segment (butlast ns)"
        using ns by (auto simp: list_all_iff dest: in_set_butlastD)
      ultimately show ?thesis unfolding rel_canon_iff by blast
    qed
  qed
qed

lemma prune_rel_canon:
  assumes "rel_canon acc" and "\<forall>s\<in>set xs. separator \<notin> set s"
  shows "rel_canon (prune True acc xs)"
  using assms
  by (induction xs arbitrary: acc) (simp_all add: rel_canon_step)

lemma prune_rel_dotdots:
  "prune True (replicate j ''..'') (replicate k ''..'' @ ns)
     = prune True (replicate (j + k) ''..'') ns"
proof (induction k arbitrary: j)
  case 0
  show ?case by simp
next
  case (Suc k)
  have "replicate j ''..'' = [] \<or> last (replicate j ''..'') = ''..''"
    by (cases j) simp_all
  then have "prune_step True (replicate j ''..'') ''..'' = replicate j ''..'' @ [''..'']"
    unfolding prune_step_dotdot_rel by auto
  then have st: "prune_step True (replicate j ''..'') ''..'' = replicate (Suc j) ''..''"
    by (simp only: replicate_dotdot_snoc)
  have "prune True (replicate j ''..'') (replicate (Suc k) ''..'' @ ns)
          = prune True (replicate (Suc j) ''..'') (replicate k ''..'' @ ns)"
    by (simp only: replicate_Suc append_Cons prune.simps st)
  also have "\<dots> = prune True (replicate (Suc j + k) ''..'') ns"
    by (rule Suc.IH)
  finally show ?case by simp
qed

lemma prune_rel_stable:
  assumes "rel_canon P"
  shows "prune True [] P = P"
proof -
  from assms obtain k ns where P: "P = replicate k ''..'' @ ns" and ns: "list_all normal_segment ns"
    unfolding rel_canon_iff by blast
  have "prune True [] P = prune True (replicate k ''..'') ns"
    using prune_rel_dotdots [of 0 k ns] unfolding P by simp
  also have "\<dots> = P" unfolding P using ns by (rule prune_normal)
  finally show ?thesis .
qed

lemma rel_canon_sane:
  assumes "rel_canon P"
  shows "\<forall>s\<in>set P. s \<noteq> [] \<and> separator \<notin> set s"
proof -
  from assms obtain k ns where P: "P = replicate k ''..'' @ ns" and ns: "list_all normal_segment ns"
    unfolding rel_canon_iff by blast
  show ?thesis
  proof
    fix s assume "s \<in> set P"
    then have "s = ''..'' \<or> s \<in> set ns" unfolding P by auto
    then show "s \<noteq> [] \<and> separator \<notin> set s"
    proof
      assume "s = ''..''" then show ?thesis using dotdot_sane by simp
    next
      assume "s \<in> set ns"
      with ns have "normal_segment s" by (simp add: list_all_iff)
      then show ?thesis by (rule normal_sane)
    qed
  qed
qed
lemma find_last_not_of_snoc:
  "find_last_not_of c (xs @ [x]) = (if x \<noteq> c then Some (length xs) else find_last_not_of c xs)"
  by (induction xs) simp_all

lemma trim_no_trailing:
  assumes "p \<noteq> []" and "last p \<noteq> separator"
  shows "trim p = p"
proof -
  from assms(1) obtain xs x where p: "p = xs @ [x]" by (metis rev_exhaust)
  with assms(2) have "x \<noteq> separator" by simp
  then show ?thesis by (simp add: trim_def p find_last_not_of_snoc)
qed

lemma directory_no_trailing:
  "p \<noteq> [] \<Longrightarrow> last p \<noteq> separator \<Longrightarrow> directory p = p @ [separator]"
  by (simp add: directory_def trim_no_trailing)

lemma directory_root: "directory [separator] = [separator]"
  by (simp add: directory_def trim_def)

lemma split_sepfree: "x \<in> set (split p) \<Longrightarrow> separator \<notin> set x"
  by (auto simp: split_def Let_def dest: read_segments_sepfree split: if_splits)

lemma normal_list_sane:
  "list_all normal_segment P \<Longrightarrow> \<forall>s\<in>set P. s \<noteq> [] \<and> separator \<notin> set s"
  by (simp add: list_all_iff normal_sane)

lemma join_last_not_sep:
  assumes "P \<noteq> []" and "\<forall>s\<in>set P. s \<noteq> [] \<and> separator \<notin> set s"
  shows "join_segments P \<noteq> []" and "last (join_segments P) \<noteq> separator"
    and "hd (join_segments P) \<noteq> separator"
proof -
  from assms have ne: "\<forall>s\<in>set P. s \<noteq> []" by blast
  note j = join_segments_nonempty [OF assms(1) ne]
  show "join_segments P \<noteq> []" using j by blast
  have lP: "last P \<in> set P" and hP: "hd P \<in> set P" using assms(1) by simp_all
  have "last (last P) \<in> set (last P)" using lP ne by simp
  then have "last (last P) \<noteq> separator" using lP assms(2) by metis
  then show "last (join_segments P) \<noteq> separator" using j by simp
  have "hd (hd P) \<in> set (hd P)" using hP ne by simp
  then have "hd (hd P) \<noteq> separator" using hP assms(2) by metis
  then show "hd (join_segments P) \<noteq> separator" using j by simp
qed

lemma sanitize_rebuilt:
  assumes "P = prune (\<not> is_absolute p) [] (split p)"
    and "\<forall>s\<in>set P. s \<noteq> [] \<and> separator \<notin> set s"
  shows "sanitize p = rebuilt (\<not> is_absolute p) P (trailing_slash p)"
proof (cases "P = []")
  case True
  show ?thesis
  proof (cases "is_absolute p")
    case abs: True
    then have "prune False [] (split p) = []" using assms(1) True by simp
    then show ?thesis
      unfolding sanitize_def Let_def rebuilt_def True using abs
      by (simp add: directory_root)
  next
    case rel: False
    then have "prune True [] (split p) = []" using assms(1) True by simp
    then show ?thesis
      unfolding sanitize_def Let_def rebuilt_def True using rel
      by simp
  qed
next
  case False
  note j = join_last_not_sep [OF False assms(2)]
  have d1: "directory (join_segments P) = join_segments P @ [separator]"
    using j by (simp add: directory_no_trailing)
  have d2: "directory (separator # join_segments P) = separator # join_segments P @ [separator]"
    using j directory_no_trailing [of "separator # join_segments P"] by simp
  show ?thesis
  proof (cases "is_absolute p")
    case abs: True
    then have P: "prune False [] (split p) = P" using assms(1) by simp
    show ?thesis
      unfolding sanitize_def Let_def rebuilt_def using abs False
      by (simp add: P d2)
  next
    case rel: False
    then have P: "prune True [] (split p) = P" using assms(1) by simp
    show ?thesis
      unfolding sanitize_def Let_def rebuilt_def using rel False j(1)
      by (simp add: P d1)
  qed
qed

lemma pruned_sane:
  "\<forall>s\<in>set (prune (\<not> is_absolute p) [] (split p)). s \<noteq> [] \<and> separator \<notin> set s"
proof (cases "is_absolute p")
  case True
  have "list_all normal_segment (prune False [] (split p))"
    by (rule prune_abs_normal) (simp_all add: split_sepfree)
  then show ?thesis using True by (simp add: normal_list_sane)
next
  case False
  have "rel_canon []" by (simp add: rel_canon_def)
  then have "rel_canon (prune True [] (split p))"
    by (rule prune_rel_canon) (simp add: split_sepfree)
  then show ?thesis using False by (simp add: rel_canon_sane)
qed

lemma sanitize_eq_rebuilt:
  "sanitize p = rebuilt (\<not> is_absolute p) (prune (\<not> is_absolute p) [] (split p)) (trailing_slash p)"
  by (rule sanitize_rebuilt [OF refl pruned_sane])

lemma is_absolute_rebuilt:
  assumes "\<forall>s\<in>set P. s \<noteq> [] \<and> separator \<notin> set s"
  shows "is_absolute (rebuilt r P d) = (\<not> r)"
proof (cases "P = []")
  case True
  then show ?thesis by (simp add: rebuilt_def is_absolute_def)
next
  case False
  note j = join_last_not_sep [OF False assms]
  show ?thesis using False j by (simp add: rebuilt_def is_absolute_def)
qed

lemma trailing_slash_rebuilt:
  assumes "\<forall>s\<in>set P. s \<noteq> [] \<and> separator \<notin> set s" and "P \<noteq> []"
  shows "trailing_slash (rebuilt r P d) = d"
proof -
  note j = join_last_not_sep [OF assms(2) assms(1)]
  show ?thesis using assms(2) j by (simp add: rebuilt_def trailing_slash_def)
qed

lemma split_rebuilt:
  assumes "\<forall>s\<in>set P. s \<noteq> [] \<and> separator \<notin> set s" and "P \<noteq> []"
  shows "split (rebuilt r P d) = (if r then [] else [[]]) @ P @ (if d then [[]] else [])"
proof -
  have ts: "trailing_slash (rebuilt r P d) = d" by (rule trailing_slash_rebuilt [OF assms])
  have rd: "read_segments (join_segments P @ (if d then [separator] else [])) = P"
    using assms by (simp add: read_segments_join read_segments_join_sep)
  have rs: "read_segments (rebuilt r P d) = (if r then [] else [[]]) @ P"
    using assms(2) rd by (simp add: rebuilt_def read_segments_sep)
  show ?thesis unfolding split_def Let_def ts rs by simp
qed

lemma prune_rebuilt:
  assumes "if r then rel_canon P else list_all normal_segment P"
  shows "prune r [] ((if r then [] else [[]]) @ P @ (if d then [[]] else [])) = P"
proof -
  have st: "prune r [] P = P"
  proof (cases r)
    case True
    with assms show ?thesis by (simp add: prune_rel_stable)
  next
    case False
    with assms show ?thesis by (simp add: prune_normal)
  qed
  have "prune r [] ((if r then [] else [[]]) @ P @ (if d then [[]] else []))
          = prune r [] (P @ (if d then [[]] else []))"
    by (simp add: prune_step_empty)
  also have "\<dots> = prune r P (if d then [[]] else [])"
    unfolding prune_append st ..
  also have "\<dots> = P" by (simp add: prune_step_empty)
  finally show ?thesis .
qed

lemma pruned_canon:
  "if \<not> is_absolute p then rel_canon (prune (\<not> is_absolute p) [] (split p))
   else list_all normal_segment (prune (\<not> is_absolute p) [] (split p))"
proof (cases "is_absolute p")
  case True
  have "list_all normal_segment (prune False [] (split p))"
    by (rule prune_abs_normal) (simp_all add: split_sepfree)
  then show ?thesis using True by simp
next
  case False
  have "rel_canon []" by (simp add: rel_canon_def)
  then have "rel_canon (prune True [] (split p))"
    by (rule prune_rel_canon) (simp add: split_sepfree)
  then show ?thesis using False by simp
qed

lemma sanitize_rebuilt_fixed:
  assumes "if r then rel_canon P else list_all normal_segment P"
  shows "sanitize (rebuilt r P d) = rebuilt r P d"
proof (cases "P = []")
  case True
  show ?thesis
  proof (cases r)
    case True
    have "sanitize [] = []" by code_simp
    with True \<open>P = []\<close> show ?thesis by (simp add: rebuilt_def)
  next
    case False
    have "sanitize ''/'' = ''/''" by code_simp
    then have "sanitize [separator] = [separator]" by (simp add: separator_def)
    with False \<open>P = []\<close> show ?thesis by (simp add: rebuilt_def)
  qed
next
  case False
  have sane: "\<forall>s\<in>set P. s \<noteq> [] \<and> separator \<notin> set s"
    using assms by (cases r) (simp_all add: rel_canon_sane normal_list_sane)
  let ?q = "rebuilt r P d"
  have ia: "(\<not> is_absolute ?q) = r" by (simp add: is_absolute_rebuilt [OF sane])
  have ts: "trailing_slash ?q = d" by (rule trailing_slash_rebuilt [OF sane False])
  have sp: "split ?q = (if r then [] else [[]]) @ P @ (if d then [[]] else [])"
    by (rule split_rebuilt [OF sane False])
  have pr: "prune r [] (split ?q) = P"
    unfolding sp by (rule prune_rebuilt [OF assms])
  have "sanitize ?q = rebuilt r (prune r [] (split ?q)) d"
    using sanitize_eq_rebuilt [of ?q] unfolding ia ts .
  then show ?thesis unfolding pr .
qed
lemma rebuilt_Nil: "rebuilt r [] d = (if r then [] else [separator])"
  by (simp add: rebuilt_def)

lemma getline_seg_sep:
  assumes "separator \<notin> set a"
  shows "getline (a @ separator # r) = Some (a, r)"
proof -
  from assms have "\<forall>c\<in>set a. c \<noteq> separator" by auto
  then show ?thesis
    by (simp add: getline_def takeWhile_append2 dropWhile_append2)
qed

lemma read_segments_snoc_separator:
  "read_segments (q @ [separator]) =
     (if q = [] then [[]]
      else if trailing_slash q then read_segments q @ [[]]
      else read_segments q)"
proof (induction q rule: read_segments.induct)
  case (1 s)
  show ?case
  proof (cases "s = []")
    case True
    then show ?thesis using read_segments_sep [of "[]"] by (simp add: read_segments_Nil)
  next
    case ne: False
    show ?thesis
    proof (cases "separator \<in> set s")
      case False
      with ne have "last s \<noteq> separator" using last_in_set by metis
      then have "\<not> trailing_slash s" by (simp add: trailing_slash_def)
      then show ?thesis
        using ne False by (simp add: read_segments_seg_sep_end read_segments_single)
    next
      case True
      then obtain a r where s: "s = a @ separator # r" and sf: "separator \<notin> set a"
        by (auto dest: split_list_first)
      have g: "getline s = Some (a, r)" unfolding s by (rule getline_seg_sep [OF sf])
      have IH: "read_segments (r @ [separator]) =
         (if r = [] then [[]]
          else if trailing_slash r then read_segments r @ [[]]
          else read_segments r)"
        using "1.IH" [OF g refl] .
      have x: "read_segments s = a # read_segments r"
        unfolding s by (rule read_segments_seg_sep [OF sf])
      have y: "read_segments (s @ [separator]) = a # read_segments (r @ [separator])"
        unfolding s using read_segments_seg_sep [OF sf, of "r @ [separator]"] by simp
      have ts: "trailing_slash s = (r = [] \<or> trailing_slash r)"
        unfolding s by (simp add: trailing_slash_def)
      show ?thesis
        unfolding y IH x ts using ne by (simp add: read_segments_Nil)
    qed
  qed
qed

lemma rmdirs_loop_ignore:
  "rmdirs_loop os True contents success calls w = (res, calls', w') \<Longrightarrow>
     map fst calls' = map fst calls @ contents
     \<and> res = (if contents = [] then success else snd (last calls'))"
proof (induction contents arbitrary: success calls w)
  case Nil
  then show ?case by simp
next
  case (Cons p contents)
  obtain ok w1 where st:
    "(if fs_is_directory os w p then fs_rmdir os p w else fs_unlink os p w) = (ok, w1)"
    by (cases "if fs_is_directory os w p then fs_rmdir os p w else fs_unlink os p w")
  from Cons.prems have run: "rmdirs_loop os True contents ok (calls @ [(p, ok)]) w1 = (res, calls', w')"
    by (simp add: st)
  from Cons.IH [OF run] have m: "map fst calls' = map fst (calls @ [(p, ok)]) @ contents"
    and r: "res = (if contents = [] then ok else snd (last calls'))" by simp_all
  show ?case
  proof (cases "contents = []")
    case True
    with run have "calls' = calls @ [(p, ok)]" by auto
    with r m True show ?thesis by simp
  next
    case False
    with r m show ?thesis by simp
  qed
qed

lemma rmdirs_loop_stop:
  "rmdirs_loop os False contents success calls w = (res, calls', w') \<Longrightarrow>
     \<forall>c\<in>set calls. snd c \<Longrightarrow> success \<Longrightarrow>
     res = (\<forall>c\<in>set calls'. snd c)"
proof (induction contents arbitrary: success calls w)
  case Nil
  then show ?case by auto
next
  case (Cons p contents)
  obtain ok w1 where st:
    "(if fs_is_directory os w p then fs_rmdir os p w else fs_unlink os p w) = (ok, w1)"
    by (cases "if fs_is_directory os w p then fs_rmdir os p w else fs_unlink os p w")
  show ?case
  proof (cases ok)
    case True
    with Cons.prems(1) have run:
      "rmdirs_loop os False contents True (calls @ [(p, True)]) w1 = (res, calls', w')"
      by (simp add: st)
    have "\<forall>c\<in>set (calls @ [(p, True)]). snd c" using Cons.prems(2) by simp
    from Cons.IH [OF run this] show ?thesis by simp
  next
    case False
    with Cons.prems(1) have "res = False" and "calls' = calls @ [(p, False)]"
      by (simp_all add: st)
    then show ?thesis by simp
  qed
qed
text \<open>On the POSIX build \<^verbatim>\<open>sanitize\<close> is idempotent and keeps a path absolute or relative,
  for every path.\<close>

lemma sanitize_idempotent: "sanitize (sanitize p) = sanitize p"
  unfolding sanitize_eq_rebuilt [of p]
  by (rule sanitize_rebuilt_fixed) (rule pruned_canon)

lemma sanitize_preserves_absolute: "is_absolute (sanitize p) = is_absolute p"
  unfolding sanitize_eq_rebuilt [of p]
  by (simp add: is_absolute_rebuilt [OF pruned_sane])

section \<open>Claims\<close>

text \<open>
  C10. \<^verbatim>\<open>trim\<close> on a path made of separators only yields the empty string: for every
  \<open>n\<close>, so for every \<open>n \<ge> 1\<close>, trimming \<open>n\<close> separators gives the empty string and not
  \<^verbatim>\<open>"/"\<close>, since \<^verbatim>\<open>find_last_not_of\<close> finds no other character and the whole string is
  erased.
\<close>

theorem trim_all_separators:
  "trim (replicate n separator) = []
   \<and> find_last_not_of separator (replicate n separator) = None"
proof -
  have "find_last_not_of separator (replicate n separator) = None"
    by (induction n) simp_all
  then show ?thesis by (simp add: trim_def)
qed

text \<open>
  C9. Appending to the empty path inserts a leading separator: \<^verbatim>\<open>Path("").append(s)\<close> is
  the separator followed by \<open>s\<close> for every \<open>s\<close>, in particular for every non-empty one, so
  the result is absolute although the empty base is relative; \<^verbatim>\<open>join("", s)\<close>,
  \<^verbatim>\<open>operator+\<close> and \<^verbatim>\<open>operator<<\<close> on an empty base give the same string.
\<close>

theorem append_to_empty:
  "append [] s = separator # s
   \<and> is_absolute (append [] s) \<and> \<not> is_absolute []
   \<and> join [] s = separator # s
   \<and> plus_path [] s = separator # s
   \<and> shift_left [] s = separator # s"
  by (simp add: append_def trailing_slash_def is_absolute_def join_def plus_path_def
      shift_left_def)

text \<open>
  C8. The root is its own parent: \<^verbatim>\<open>Path("/").parent()\<close> is \<^verbatim>\<open>"/"\<close>. \<^verbatim>\<open>up\<close> appends
  \<^verbatim>\<open>..\<close>, which gives \<^verbatim>\<open>"/.."\<close>, sanitizes it to \<^verbatim>\<open>"/"\<close> and marks it as a directory.
\<close>

theorem parent_root:
  "parent ''/'' = ''/''
   \<and> append ''/'' ''..'' = ''/..''
   \<and> sanitize ''/..'' = ''/''
   \<and> directory ''/'' = ''/''"
  by code_simp

text \<open>
  C6. On a relative path the \<^verbatim>\<open>..\<close> that cannot be resolved stay at the front, in order,
  and runs of separators collapse: \<^verbatim>\<open>sanitize("../../a/b////c")\<close> is \<^verbatim>\<open>"../../a/b/c"\<close>. In
  the relative branch a \<^verbatim>\<open>..\<close> pops the last segment accumulated so far, unless nothing
  is accumulated or the last one is itself \<^verbatim>\<open>..\<close>; then the \<^verbatim>\<open>..\<close> is pushed.
\<close>

theorem sanitize_relative_dotdot:
  "sanitize ''../../a/b////c'' = ''../../a/b/c''
   \<and> prune True acc (segments @ [''..'']) =
       (let pruned = prune True acc segments
        in if pruned = [] \<or> last pruned = ''..'' then pruned @ [''..''] else butlast pruned)"
proof
  show "sanitize ''../../a/b////c'' = ''../../a/b/c''"
    by code_simp
next
  show "prune True acc (segments @ [''..'']) =
       (let pruned = prune True acc segments
        in if pruned = [] \<or> last pruned = ''..'' then pruned @ [''..''] else butlast pruned)"
    unfolding prune_append Let_def
    by (simp only: prune.simps prune_step_dotdot_rel) auto
qed

text \<open>
  C7. On an absolute path \<^verbatim>\<open>..\<close> stops at the root:
  \<^verbatim>\<open>sanitize("/../../a/b////c")\<close> is \<^verbatim>\<open>"/a/b/c"\<close>. In the absolute branch a \<^verbatim>\<open>..\<close> met
  while nothing is accumulated is dropped, and otherwise pops the last accumulated segment.
\<close>

theorem sanitize_absolute_dotdot:
  "sanitize ''/../../a/b////c'' = ''/a/b/c''
   \<and> prune False [] (''..'' # segments) = prune False [] segments
   \<and> prune False acc (segments @ [''..'']) = butlast (prune False acc segments)"
proof (intro conjI)
  show "sanitize ''/../../a/b////c'' = ''/a/b/c''"
    by code_simp
next
  show "prune False [] (''..'' # segments) = prune False [] segments"
    by (simp only: prune.simps prune_step_dotdot_abs butlast.simps)
next
  show "prune False acc (segments @ [''..'']) = butlast (prune False acc segments)"
    unfolding prune_append
    by (simp only: prune.simps prune_step_dotdot_abs)
qed

text \<open>
  C1. \<^verbatim>\<open>sanitize\<close> should be idempotent for every path. On the POSIX build it is
  (\<open>sanitize_idempotent\<close>). On the Windows build it is not: \<^verbatim>\<open>Path("/::/")\<close> holds the
  separator, two colons and the separator; it counts as absolute because its second
  character is the colon, its only non-empty segment is skipped as a drive segment out of
  place, and the absolute branch makes the empty result a directory, a lone separator. That
  path is relative and sanitizes to the empty string.
\<close>

theorem sanitize_win32_not_idempotent:
  "Path_win32 ''/::/'' = [windows_separator, CHR '':'', CHR '':'', windows_separator]
   \<and> is_absolute_win32 (Path_win32 ''/::/'')
   \<and> sanitize_win32 (Path_win32 ''/::/'') = [windows_separator]
   \<and> sanitize_win32 (sanitize_win32 (Path_win32 ''/::/'')) = []
   \<and> sanitize_win32 (sanitize_win32 (Path_win32 ''/::/''))
       \<noteq> sanitize_win32 (Path_win32 ''/::/'')"
  by code_simp

text \<open>
  C5. \<^verbatim>\<open>sanitize\<close> should keep an absolute path absolute and a relative path relative, for
  every path. On the POSIX build it does (\<open>sanitize_preserves_absolute\<close>). On the Windows
  build \<^verbatim>\<open>Path("/:")\<close>, the separator followed by a colon, is absolute, and sanitizes to the
  single colon, which is not.
\<close>

theorem sanitize_win32_loses_absolute:
  "Path_win32 ''/:'' = [windows_separator, CHR '':'']
   \<and> is_absolute_win32 (Path_win32 ''/:'')
   \<and> sanitize_win32 (Path_win32 ''/:'') = '':''
   \<and> \<not> is_absolute_win32 (sanitize_win32 (Path_win32 ''/:''))"
  by code_simp

text \<open>
  C2, as stated: whenever \<open>sanitize p\<close> is not empty, \<open>p\<close> and \<open>sanitize p\<close> agree on the
  trailing separator. It fails at \<^verbatim>\<open>"/a/.."\<close>, which has no trailing separator and
  sanitizes to the root \<^verbatim>\<open>"/"\<close>, whose last character is the separator.
\<close>

theorem sanitize_trailing_slash_counterexample:
  "sanitize ''/a/..'' = ''/''
   \<and> \<not> (sanitize ''/a/..'' \<noteq> [] \<longrightarrow>
          trailing_slash ''/a/..'' = trailing_slash (sanitize ''/a/..''))"
  by code_simp

text \<open>
  C2, amended: whenever \<open>sanitize p\<close> is neither empty nor the bare root \<^verbatim>\<open>"/"\<close>, \<open>p\<close> and
  \<open>sanitize p\<close> agree on the trailing separator; and whenever \<open>sanitize p\<close> is not empty, a
  trailing separator of \<open>p\<close> is kept, the root included.
\<close>

theorem sanitize_preserves_trailing_slash:
  "(sanitize p \<noteq> [] \<and> sanitize p \<noteq> [separator] \<longrightarrow>
      trailing_slash p = trailing_slash (sanitize p))
   \<and> (sanitize p \<noteq> [] \<and> trailing_slash p \<longrightarrow> trailing_slash (sanitize p))"
proof -
  let ?P = "prune (\<not> is_absolute p) [] (split p)"
  have eq: "sanitize p = rebuilt (\<not> is_absolute p) ?P (trailing_slash p)"
    by (rule sanitize_eq_rebuilt)
  show ?thesis
  proof (cases "?P = []")
    case True
    then have "sanitize p = (if \<not> is_absolute p then [] else [separator])"
      using eq by (simp add: rebuilt_Nil)
    then show ?thesis by (simp add: trailing_slash_def)
  next
    case False
    have "trailing_slash (sanitize p) = trailing_slash p"
      unfolding eq by (rule trailing_slash_rebuilt [OF pruned_sane False])
    then show ?thesis by simp
  qed
qed

theorem sanitize_preserves_trailing_slash_witness:
  "sanitize ''a/./b/'' \<noteq> [] \<and> sanitize ''a/./b/'' \<noteq> [separator]
   \<and> trailing_slash ''a/./b/''
   \<and> trailing_slash ''a/./b/'' = trailing_slash (sanitize ''a/./b/'')
   \<and> trailing_slash (sanitize ''a/./b/'')"
proof -
  have h: "sanitize ''a/./b/'' \<noteq> [] \<and> sanitize ''a/./b/'' \<noteq> [separator]"
    by code_simp
  have t: "trailing_slash ''a/./b/''" by code_simp
  show ?thesis
    using h t sanitize_preserves_trailing_slash [of "''a/./b/''"] by blast
qed

text \<open>
  C4, as stated: for a path that begins with the separator, \<^verbatim>\<open>split\<close> produces no entry for
  the leading separator, its first element is the first real component, and
  \<^verbatim>\<open>split("/foo/bar/baz/")\<close> has 4 elements. It fails at that very path: \<^verbatim>\<open>getline\<close> meets
  the delimiter at once and yields an empty segment, so there are 5 elements and the first
  one is empty.
\<close>

theorem split_leading_separator_counterexample:
  "split ''/foo/bar/baz/'' = [[], ''foo'', ''bar'', ''baz'', []]
   \<and> \<not> (length (split ''/foo/bar/baz/'') = 4 \<and> hd (split ''/foo/bar/baz/'') = ''foo'')"
  by code_simp

text \<open>
  C4, amended: for every path that begins with the separator, \<^verbatim>\<open>split\<close> produces one empty
  segment for the leading separator, followed by the segments of the rest of the path (for
  the bare root, by the trailing empty segment alone); \<^verbatim>\<open>split("/foo/bar/baz/")\<close> has 5
  elements; and a trailing separator after a non-empty path appends one explicit trailing
  empty segment.
\<close>

theorem split_leading_separator:
  "split (separator # s) = [] # (if s = [] then [[]] else split s)
   \<and> length (split ''/foo/bar/baz/'') = 5
   \<and> (q \<noteq> [] \<longrightarrow> split (q @ [separator]) = split q @ [[]])"
proof (intro conjI)
  show "split (separator # s) = [] # (if s = [] then [[]] else split s)"
    by (simp add: split_def Let_def trailing_slash_def read_segments_sep read_segments_Nil)
next
  show "length (split ''/foo/bar/baz/'') = 5" by code_simp
next
  show "q \<noteq> [] \<longrightarrow> split (q @ [separator]) = split q @ [[]]"
    by (simp add: split_def Let_def read_segments_snoc_separator trailing_slash_def)
qed

theorem split_leading_separator_witness:
  "''foo'' \<noteq> [] \<and> split (''foo'' @ [separator]) = split ''foo'' @ [[]]
   \<and> split (''foo'' @ [separator]) = [''foo'', []]"
proof -
  have h: "''foo'' \<noteq> []" by simp
  have v: "split ''foo'' = [''foo'']" by code_simp
  show ?thesis
    using h v split_leading_separator [of "[]" "''foo''"] by simp
qed

text \<open>
  C3. With \<^verbatim>\<open>ignore_errors\<close> set, \<^verbatim>\<open>rmdirs\<close> should attempt every collected entry and return
  false exactly when some removal failed. The loop assigns \<^verbatim>\<open>success\<close> anew at every
  entry, so the value returned is the result of the last removal only. The input: working
  directory \<^verbatim>\<open>/\<close>, \<^verbatim>\<open>rmdirs("r", true)\<close>, where \<^verbatim>\<open>r\<close> holds the directory \<^verbatim>\<open>d\<close> with the
  file \<^verbatim>\<open>f\<close> and the symbolic link \<^verbatim>\<open>s\<close> to \<^verbatim>\<open>d\<close>. \<^verbatim>\<open>/r/s/f\<close> and \<^verbatim>\<open>/r/d/f\<close> are the same
  file, so the second \<^verbatim>\<open>unlink\<close> fails; the three removals after it succeed and the call
  returns true after all five attempts. Without \<^verbatim>\<open>ignore_errors\<close> the same input returns
  false at the failing step.
\<close>

theorem rmdirs_ignore_errors_last_step:
  "rmdirs scripted (cwd ''/'') [''/r/d'', ''/r/s'', ''/r/s/f'', ''/r/d/f''] ''r'' True
     [(False, True), (False, False), (True, True), (False, True), (True, True)]
   = (True,
      [(''/r/s/f'', True), (''/r/d/f'', False), (''/r/d'', True), (''/r/s'', True),
       (''r'', True)],
      [])
   \<and> rmdirs scripted (cwd ''/'') [''/r/d'', ''/r/s'', ''/r/s/f'', ''/r/d/f''] ''r'' False
     [(False, True), (False, False), (True, True), (False, True), (True, True)]
   = (False,
      [(''/r/s/f'', True), (''/r/d/f'', False)],
      [(True, True), (False, True), (True, True)])"
  by code_simp

end
